theory Spec2Isabelle
  imports Main
begin

section \<open>The scraping script \<open>mspider.py\<close>: retry runner and batch loop\<close>

text \<open>
  The script has two pieces of control flow of its own: \<open>scrape_with_retry\<close>, a
  \<open>for attempt in range(max_retries)\<close> loop around one call of the external scraping
  engine, and the module-level loop over \<open>categories\<close> that calls it and writes one
  file per category. Both are embedded here as state-passing functions. The engine,
  the clock and the file system are not code of the script: they are parameters
  (a \<open>world\<close>), and every effect the script performs is appended to a trace.
\<close>

subsection \<open>Exceptions and printed text\<close>

text \<open>
  A value of \<open>exn\<close> is an instance of Python's \<open>Exception\<close>, the only class the two
  \<open>except Exception as e\<close> clauses catch; the string is \<open>str(e)\<close>.
\<close>

datatype exn = Exception string

fun str_exn :: "exn \<Rightarrow> string" where
  "str_exn (Exception m) = m"

definition digit_char :: "nat \<Rightarrow> char" where
  "digit_char d = ''0123456789'' ! d"

fun str_nat :: "nat \<Rightarrow> string" where
  "str_nat n = (if n < 10 then [digit_char n] else str_nat (n div 10) @ [digit_char (n mod 10)])"

declare str_nat.simps [simp del]

text \<open>\<open>str(i)\<close> of a Python integer, as an f-string field \<open>{i}\<close> formats it.\<close>

definition str_int :: "int \<Rightarrow> string" where
  "str_int i = (if i < 0 then CHR ''-'' # str_nat (nat (- i)) else str_nat (nat i))"

text \<open>
  One constructor per \<open>print\<close> call of the source, with the values its f-string
  interpolates; \<open>render\<close> is the text that reaches standard output.
\<close>

datatype msg =
    ExecInfo string
  | AttemptFailed int string exn
  | Waiting int
  | FailedAfter string int
  | ScrapingCategory string
  | ResultsSaved string
  | ErrorScraping string exn

fun render :: "msg \<Rightarrow> string" where
  "render (ExecInfo s) = s"
| "render (AttemptFailed k url e) =
     ''Attempt '' @ str_int k @ '' failed for '' @ url @ '': '' @ str_exn e"
| "render (Waiting d) = ''Waiting '' @ str_int d @ '' seconds before retry...''"
| "render (FailedAfter url n) =
     ''Failed to scrape '' @ url @ '' after '' @ str_int n @ '' attempts''"
| "render (ScrapingCategory url) = CHR 0x0A # ''Scraping category: '' @ url"
| "render (ResultsSaved f) = ''Results saved to '' @ f"
| "render (ErrorScraping url e) = ''Error scraping '' @ url @ '': '' @ str_exn e"

subsection \<open>Effects, state and the outside world\<close>

text \<open>
  \<open>Scrape url\<close>: a \<open>SmartScraperGraph\<close> was built for \<open>url\<close> and run (one attempt);
  \<open>Print m\<close>: a \<open>print\<close>; \<open>Sleep d\<close>: \<open>time.sleep(d)\<close> returned;
  \<open>Open f\<close>: \<open>open(f, 'w')\<close> created or truncated \<open>f\<close>;
  \<open>Write f c\<close>: \<open>c\<close> was written to \<open>f\<close> and the file closed.
\<close>

datatype event =
    Scrape string
  | Print msg
  | Sleep int
  | Open string
  | Write string string

record state =
  calls :: nat
  trace :: "event list"
  files :: "string \<rightharpoonup> string"

text \<open>
  What one pass through the \<open>try\<close> block of \<open>scrape_with_retry\<close> meets:
  the constructor or \<open>scraper.run()\<close> raises; \<open>run()\<close> returns \<open>r\<close> and then
  \<open>get_execution_info()\<close> or \<open>prettify_exec_info\<close> raises; or everything returns,
  with the prettified execution info as text.
\<close>

datatype 'r outcome =
    ScrapeRaises exn
  | DiagRaises 'r exn
  | Completes 'r string

text \<open>What \<open>with open(filename, 'w', encoding='utf-8') as f: f.write(...)\<close> meets.\<close>

datatype persist =
    OpenRaises exn
  | WriteRaises exn
  | Written

record date =
  year :: nat
  mon :: nat
  mday :: nat

text \<open>
  The collaborators, indexed by the number of engine runs so far (a logical clock):
  the engine's answer for a url, Python's \<open>str\<close> on a result, the local date, and
  the file system's answer for a file name.
\<close>

record 'r world =
  engine :: "string \<Rightarrow> nat \<Rightarrow> 'r outcome"
  py_str :: "'r \<Rightarrow> string"
  localtime :: "nat \<Rightarrow> date"
  disk :: "string \<Rightarrow> nat \<Rightarrow> persist"

definition emit :: "event \<Rightarrow> state \<Rightarrow> state" where
  "emit ev st = st\<lparr>trace := trace st @ [ev]\<rparr>"

definition py_print :: "msg \<Rightarrow> state \<Rightarrow> state" where
  "py_print m st = emit (Print m) st"

text \<open>
  \<open>time.sleep\<close> takes a length in seconds. It raises \<open>ValueError\<close> on a negative
  length and \<open>OverflowError\<close> on one that does not fit the interpreter's clock, a
  signed 64-bit count of nanoseconds: the longest integer length it accepts is
  \<open>sleep_max\<close> seconds. Both are instances of \<open>Exception\<close>.
\<close>

definition sleep_max :: int where
  "sleep_max = 9223372036"

definition py_sleep :: "int \<Rightarrow> state \<Rightarrow> (exn + unit) \<times> state" where
  "py_sleep d st =
     (if d < 0 then (Inl (Exception ''sleep length must be non-negative''), st)
      else if sleep_max < d
      then (Inl (Exception ''timestamp too large to convert to C _PyTime_t''), st)
      else (Inr (), emit (Sleep d) st))"

subsection \<open>\<open>scrape_with_retry\<close>\<close>

text \<open>The \<open>try\<close> block (source lines 79 to 105): \<open>Inr r\<close> is \<open>return result\<close>.\<close>

definition try_body :: "'r world \<Rightarrow> string \<Rightarrow> state \<Rightarrow> (exn + 'r) \<times> state" where
  "try_body w url st =
     (let st1 = emit (Scrape url) (st\<lparr>calls := calls st + 1\<rparr>) in
      case engine w url (calls st) of
        ScrapeRaises e \<Rightarrow> (Inl e, st1)
      | DiagRaises r e \<Rightarrow> (Inl e, st1)
      | Completes r info \<Rightarrow> (Inr r, py_print (ExecInfo info) st1))"

text \<open>\<open>range(n)\<close> for a Python integer \<open>n\<close>: empty when \<open>n \<le> 0\<close>.\<close>

definition range_py :: "int \<Rightarrow> int list" where
  "range_py n = map int [0..<nat n]"

text \<open>
  The \<open>for\<close> loop over the remaining values of \<open>attempt\<close>, with the current
  \<open>delay\<close>. Falling off the end of the loop returns \<open>None\<close>; the bare \<open>raise\<close>
  re-raises the exception just caught.
\<close>

fun retry_loop ::
  "'r world \<Rightarrow> string \<Rightarrow> int \<Rightarrow> int list \<Rightarrow> int \<Rightarrow> state \<Rightarrow> (exn + 'r option) \<times> state"
where
  "retry_loop w url max_retries [] delay st = (Inr None, st)"
| "retry_loop w url max_retries (attempt # rest) delay st =
     (case try_body w url st of
        (Inr result, st1) \<Rightarrow> (Inr (Some result), st1)
      | (Inl e, st1) \<Rightarrow>
          (let st2 = py_print (AttemptFailed (attempt + 1) url e) st1 in
           if attempt < max_retries - 1 then
             (let st3 = py_print (Waiting delay) st2 in
              case py_sleep delay st3 of
                (Inl e', st4) \<Rightarrow> (Inl e', st4)
              | (Inr u, st4) \<Rightarrow> retry_loop w url max_retries rest (delay * 2) st4)
           else (Inl e, py_print (FailedAfter url max_retries) st2)))"

definition scrape_with_retry ::
  "'r world \<Rightarrow> string \<Rightarrow> int \<Rightarrow> int \<Rightarrow> state \<Rightarrow> (exn + 'r option) \<times> state"
where
  "scrape_with_retry w url max_retries delay st =
     retry_loop w url max_retries (range_py max_retries) delay st"

subsection \<open>The main scraping loop\<close>

text \<open>\<open>s.split(c)\<close> for a one-character separator: never empty.\<close>

fun split_py :: "char \<Rightarrow> string \<Rightarrow> string list" where
  "split_py c [] = [[]]"
| "split_py c (x # xs) =
     (if x = c then [] # split_py c xs
      else (x # hd (split_py c xs)) # tl (split_py c xs))"

definition pad2 :: "nat \<Rightarrow> string" where
  "pad2 n = (if n < 10 then CHR ''0'' # str_nat n else str_nat n)"

text \<open>\<open>time.strftime('%Y%m%d')\<close> on the local date: year, then month and day on two digits.\<close>

definition strftime_Ymd :: "date \<Rightarrow> string" where
  "strftime_Ymd d = str_nat (year d) @ pad2 (mon d) @ pad2 (mday d)"

definition category_name :: "string \<Rightarrow> string" where
  "category_name category_url = last (split_py CHR ''/'' category_url)"

definition filename_of :: "string \<Rightarrow> date \<Rightarrow> string" where
  "filename_of category_url d =
     ''mobilesentrix_'' @ category_name category_url @ ''_'' @ strftime_Ymd d @ ''.json''"

text \<open>\<open>str(result)\<close>, where \<open>result\<close> may be \<open>None\<close>.\<close>

fun str_result :: "'r world \<Rightarrow> 'r option \<Rightarrow> string" where
  "str_result w None = ''None''"
| "str_result w (Some r) = py_str w r"

text \<open>
  The \<open>try\<close> block of the loop body (source lines 121 to 134). A write that raises
  leaves the file as \<open>open\<close> made it.
\<close>

definition item_body :: "'r world \<Rightarrow> string \<Rightarrow> state \<Rightarrow> (exn + unit) \<times> state" where
  "item_body w category_url st =
     (let st1 = py_print (ScrapingCategory category_url) st in
      case scrape_with_retry w category_url 3 5 st1 of
        (Inl e, st2) \<Rightarrow> (Inl e, st2)
      | (Inr result, st2) \<Rightarrow>
          (let filename = filename_of category_url (localtime w (calls st2)) in
           case disk w filename (calls st2) of
             OpenRaises e \<Rightarrow> (Inl e, st2)
           | WriteRaises e \<Rightarrow>
               (Inl e, emit (Open filename) (st2\<lparr>files := (files st2)(filename \<mapsto> [])\<rparr>))
           | Written \<Rightarrow>
               (let st3 = emit (Write filename (str_result w result))
                            (emit (Open filename)
                               (st2\<lparr>files := (files st2)(filename \<mapsto> str_result w result)\<rparr>));
                    st4 = py_print (ResultsSaved filename) st3
                in py_sleep 5 st4)))"

text \<open>The loop body with its \<open>except Exception as e\<close> clause.\<close>

definition process_item :: "'r world \<Rightarrow> string \<Rightarrow> state \<Rightarrow> (exn + unit) \<times> state" where
  "process_item w category_url st =
     (case item_body w category_url st of
        (Inl e, st') \<Rightarrow> (Inr (), py_print (ErrorScraping category_url e) st')
      | (Inr u, st') \<Rightarrow> (Inr (), st'))"

text \<open>The \<open>for\<close> loop: an exception that leaves the body ends the loop.\<close>

fun main_loop :: "'r world \<Rightarrow> string list \<Rightarrow> state \<Rightarrow> (exn + unit) \<times> state" where
  "main_loop w [] st = (Inr (), st)"
| "main_loop w (category_url # rest) st =
     (case process_item w category_url st of
        (Inl e, st') \<Rightarrow> (Inl e, st')
      | (Inr u, st') \<Rightarrow> main_loop w rest st')"

definition categories :: "string list" where
  "categories = [''Cell Phones'', ''Tablets'', ''Computers'']"

definition script :: "'r world \<Rightarrow> state \<Rightarrow> (exn + unit) \<times> state" where
  "script w st = main_loop w categories st"

subsection \<open>Reading a trace\<close>

text \<open>
  The sleeps, the engine runs, the printed messages and the completed file writes of a
  trace, in order; the events after the last engine run; and the events a call added.
\<close>

fun waits :: "event list \<Rightarrow> int list" where
  "waits [] = []"
| "waits (Sleep d # tr) = d # waits tr"
| "waits (ev # tr) = waits tr"

fun attempts :: "event list \<Rightarrow> string list" where
  "attempts [] = []"
| "attempts (Scrape url # tr) = url # attempts tr"
| "attempts (ev # tr) = attempts tr"


fun artifacts :: "event list \<Rightarrow> (string \<times> string) list" where
  "artifacts [] = []"
| "artifacts (Write f c # tr) = (f, c) # artifacts tr"
| "artifacts (ev # tr) = artifacts tr"

fun is_attempt :: "event \<Rightarrow> bool" where
  "is_attempt (Scrape url) = True"
| "is_attempt ev = False"

definition after_last_attempt :: "event list \<Rightarrow> event list" where
  "after_last_attempt tr = rev (takeWhile (\<lambda>ev. \<not> is_attempt ev) (rev tr))"

definition new_events :: "state \<Rightarrow> state \<Rightarrow> event list" where
  "new_events st st' = drop (length (trace st)) (trace st')"

subsection \<open>Scenarios and expected traces\<close>

text \<open>
  \<open>err_of\<close> is the exception an attempt ends with, if any. \<open>raises_in_turn w url c es\<close>
  says that the engine's answers for \<open>url\<close> from run \<open>c\<close> on raise the exceptions
  \<open>es\<close>, one per attempt. \<open>backoff_trace\<close> is what the specification expects of a run
  of failed attempts that are each retried, \<open>final_failure\<close> of the failed attempt that
  is not. \<open>advance k evs\<close> is a state after \<open>k\<close> more engine runs and the events \<open>evs\<close>.
  \<open>sleeps_accepted d k\<close> says that \<open>time.sleep\<close> accepts each of the first \<open>k\<close>
  backoff delays \<open>d, d * 2, d * 4, ...\<close>.
\<close>

fun err_of :: "'r outcome \<Rightarrow> exn option" where
  "err_of (ScrapeRaises e) = Some e"
| "err_of (DiagRaises r e) = Some e"
| "err_of (Completes r info) = None"

fun raises_in_turn :: "'r world \<Rightarrow> string \<Rightarrow> nat \<Rightarrow> exn list \<Rightarrow> bool" where
  "raises_in_turn w url c [] = True"
| "raises_in_turn w url c (e # es) =
     (err_of (engine w url c) = Some e \<and> raises_in_turn w url (Suc c) es)"

fun sleeps_accepted :: "int \<Rightarrow> nat \<Rightarrow> bool" where
  "sleeps_accepted d 0 = True"
| "sleeps_accepted d (Suc k) = (0 \<le> d \<and> d \<le> sleep_max \<and> sleeps_accepted (d * 2) k)"

definition failed_attempt :: "string \<Rightarrow> int \<Rightarrow> exn \<Rightarrow> int \<Rightarrow> event list" where
  "failed_attempt url k e d =
     [Scrape url, Print (AttemptFailed k url e), Print (Waiting d), Sleep d]"

fun backoff_trace :: "string \<Rightarrow> int \<Rightarrow> exn list \<Rightarrow> int \<Rightarrow> event list" where
  "backoff_trace url k [] d = []"
| "backoff_trace url k (e # es) d =
     failed_attempt url k e d @ backoff_trace url (k + 1) es (d * 2)"

definition final_failure :: "string \<Rightarrow> int \<Rightarrow> int \<Rightarrow> exn \<Rightarrow> event list" where
  "final_failure url k n e =
     [Scrape url, Print (AttemptFailed k url e), Print (FailedAfter url n)]"

definition advance :: "nat \<Rightarrow> event list \<Rightarrow> state \<Rightarrow> state" where
  "advance k evs st = st\<lparr>calls := calls st + k, trace := trace st @ evs\<rparr>"


subsection \<open>Example worlds\<close>


definition start :: state where
  "start = \<lparr>calls = 0, trace = [], files = Map.empty\<rparr>"




subsection \<open>An engine whose late failures are early ones\<close>



subsection \<open>One item of the batch, as the specification describes it\<close>

text \<open>
  \<open>announced\<close> lists the items whose processing a trace starts (the message printed
  first in the loop body). \<open>leading_errors w url c k\<close> are the exceptions of the failed
  attempts that come before the first completing one, among the engine's next \<open>k\<close>
  answers for \<open>url\<close> from run \<open>c\<close> on. With the loop's fixed policy of 3 attempts, an
  item \<open>exhausts\<close> its retries when all three fail; otherwise it uses \<open>item_runs\<close> engine
  runs, its file name is computed at that moment, and the file system answers
  \<open>item_persist\<close>. An item fails terminally when it exhausts its retries or persisting
  raises. \<open>item_artifact\<close> is the file (name and content) expected of an item, if any,
  and \<open>batch_artifacts\<close> lists it for each item of a batch, each in the state the loop
  reaches it in; \<open>batch_runs\<close> lists the engine runs each item uses.
\<close>

fun announced :: "event list \<Rightarrow> string list" where
  "announced [] = []"
| "announced (Print (ScrapingCategory u) # tr) = u # announced tr"
| "announced (ev # tr) = announced tr"

fun leading_errors :: "'r world \<Rightarrow> string \<Rightarrow> nat \<Rightarrow> nat \<Rightarrow> exn list" where
  "leading_errors w url c 0 = []"
| "leading_errors w url c (Suc k) =
     (case err_of (engine w url c) of
        None \<Rightarrow> []
      | Some e \<Rightarrow> e # leading_errors w url (Suc c) k)"

fun result_of :: "'r outcome \<Rightarrow> 'r option" where
  "result_of (Completes r info) = Some r"
| "result_of out = None"

fun info_of :: "'r outcome \<Rightarrow> string" where
  "info_of (Completes r info) = info"
| "info_of out = []"

definition exhausts :: "'r world \<Rightarrow> string \<Rightarrow> state \<Rightarrow> bool" where
  "exhausts w u st = (length (leading_errors w u (calls st) 3) = 3)"

definition item_runs :: "'r world \<Rightarrow> string \<Rightarrow> state \<Rightarrow> nat" where
  "item_runs w u st = min 3 (length (leading_errors w u (calls st) 3) + 1)"

definition item_filename :: "'r world \<Rightarrow> string \<Rightarrow> state \<Rightarrow> string" where
  "item_filename w u st = filename_of u (localtime w (calls st + item_runs w u st))"

definition item_persist :: "'r world \<Rightarrow> string \<Rightarrow> state \<Rightarrow> persist" where
  "item_persist w u st = disk w (item_filename w u st) (calls st + item_runs w u st)"

definition fails_terminally :: "'r world \<Rightarrow> string \<Rightarrow> state \<Rightarrow> bool" where
  "fails_terminally w u st = (exhausts w u st \<or> item_persist w u st \<noteq> Written)"

definition item_result :: "'r world \<Rightarrow> string \<Rightarrow> state \<Rightarrow> 'r option" where
  "item_result w u st =
     result_of (engine w u (calls st + length (leading_errors w u (calls st) 3)))"

definition item_artifact :: "'r world \<Rightarrow> string \<Rightarrow> state \<Rightarrow> (string \<times> string) option" where
  "item_artifact w u st =
     (if fails_terminally w u st then None
      else Some (item_filename w u st, str_result w (item_result w u st)))"



text \<open>
  A date as \<open>localtime\<close> gives it, with a four-digit year; a decimal digit, its
  value, and the number a string of decimal digits reads as.
\<close>

definition valid_date :: "date \<Rightarrow> bool" where
  "valid_date d =
     (1000 \<le> year d \<and> year d \<le> 9999 \<and> 1 \<le> mon d \<and> mon d \<le> 12 \<and>
      1 \<le> mday d \<and> mday d \<le> 31)"

definition is_digit :: "char \<Rightarrow> bool" where
  "is_digit c = (c \<in> set ''0123456789'')"

definition digit_val :: "char \<Rightarrow> nat" where
  "digit_val c = length (takeWhile (\<lambda>x. x \<noteq> c) ''0123456789'')"

definition read_nat :: "string \<Rightarrow> nat" where
  "read_nat s = foldl (\<lambda>a c. 10 * a + digit_val c) 0 s"

subsection \<open>Example worlds for the batch\<close>

text \<open>
  \<open>tablets_down\<close>: every scrape of "Tablets" times out, everything else completes.
  \<open>third_time_lucky\<close>: every third engine run completes, the others time out.
  \<open>slash_world\<close>: everything completes, and \<open>str\<close> of a result is not the result.
\<close>

definition tablets_down :: "string world" where
  "tablets_down =
     \<lparr>engine = (\<lambda>url i. if url = ''Tablets'' then ScrapeRaises (Exception ''timeout'')
                         else Completes ''{items: []}'' ''nodes: 4''),
      py_str = (\<lambda>r. r),
      localtime = (\<lambda>i. \<lparr>year = 2024, mon = 3, mday = 7\<rparr>),
      disk = (\<lambda>f i. Written)\<rparr>"

definition third_time_lucky :: "string world" where
  "third_time_lucky =
     \<lparr>engine = (\<lambda>url i. if i mod 3 = 2 then Completes ''{items: []}'' ''nodes: 4''
                         else ScrapeRaises (Exception ''timeout'')),
      py_str = (\<lambda>r. r),
      localtime = (\<lambda>i. \<lparr>year = 2024, mon = 3, mday = 7\<rparr>),
      disk = (\<lambda>f i. Written)\<rparr>"

definition slash_world :: "string world" where
  "slash_world =
     \<lparr>engine = (\<lambda>url i. Completes ''{items: []}'' ''nodes: 4''),
      py_str = (\<lambda>r. CHR ''<'' # r @ ''>''),
      localtime = (\<lambda>i. \<lparr>year = 2024, mon = 11, mday = 4\<rparr>),
      disk = (\<lambda>f i. Written)\<rparr>"

section \<open>The retry loop, step by step\<close>

lemma render_examples:
  "render (AttemptFailed 1 ''Tablets'' (Exception ''timeout'')) =
     ''Attempt 1 failed for Tablets: timeout''"
  "render (Waiting 10) = ''Waiting 10 seconds before retry...''"
  "render (FailedAfter ''Tablets'' 3) = ''Failed to scrape Tablets after 3 attempts''"
  by (simp_all add: str_int_def str_nat.simps digit_char_def)

lemma waits_append: "waits (xs @ ys) = waits xs @ waits ys"
  by (induction xs rule: waits.induct) simp_all

lemma attempts_append: "attempts (xs @ ys) = attempts xs @ attempts ys"
  by (induction xs rule: attempts.induct) simp_all


lemma artifacts_append: "artifacts (xs @ ys) = artifacts xs @ artifacts ys"
  by (induction xs rule: artifacts.induct) simp_all

lemma advance_advance: "advance k xs (advance j ys st) = advance (j + k) (ys @ xs) st"
  by (simp add: advance_def)

lemma advance_0: "advance 0 [] st = st"
  by (simp add: advance_def)

lemma new_events_advance: "new_events st (advance k evs st) = evs"
  by (simp add: new_events_def advance_def)

lemma retry_fail_again:
  assumes "err_of (engine w url (calls st)) = Some e" and "a < n - 1"
    and "0 \<le> d" and "d \<le> sleep_max"
  shows "retry_loop w url n (a # rest) d st =
         retry_loop w url n rest (d * 2) (advance 1 (failed_attempt url (a + 1) e d) st)"
  using assms
  by (cases "engine w url (calls st)")
     (simp_all add: try_body_def py_print_def py_sleep_def emit_def advance_def failed_attempt_def)

lemma retry_fail_last:
  assumes "err_of (engine w url (calls st)) = Some e" and "\<not> a < n - 1"
  shows "retry_loop w url n (a # rest) d st =
         (Inl e, advance 1 (final_failure url (a + 1) n e) st)"
  using assms
  by (cases "engine w url (calls st)")
     (simp_all add: try_body_def py_print_def emit_def advance_def final_failure_def)

lemma retry_success:
  assumes "engine w url (calls st) = Completes r info"
  shows "retry_loop w url n (a # rest) d st =
         (Inr (Some r), advance 1 [Scrape url, Print (ExecInfo info)] st)"
  using assms
  by (simp add: try_body_def py_print_def emit_def advance_def)



lemma calls_advance: "calls (advance k evs st) = calls st + k"
  by (simp add: advance_def)

lemma retry_failures:
  "raises_in_turn w url (calls st) es \<Longrightarrow> sleeps_accepted d (length es) \<Longrightarrow>
   int a + int (length es) < n \<Longrightarrow>
   retry_loop w url n (map int [a..<a + length es] @ rest) d st =
   retry_loop w url n rest (d * 2 ^ length es)
     (advance (length es) (backoff_trace url (int a + 1) es d) st)"
proof (induction es arbitrary: a d st)
  case Nil
  then show ?case by (simp add: advance_0)
next
  case (Cons e es)
  have upt: "[a..<a + length (e # es)] = a # [Suc a..<Suc a + length es]"
    by (subst upt_rec) simp
  have step: "retry_loop w url n (int a # (map int [Suc a..<Suc a + length es] @ rest)) d st =
     retry_loop w url n (map int [Suc a..<Suc a + length es] @ rest) (d * 2)
       (advance 1 (failed_attempt url (int a + 1) e d) st)"
    using Cons.prems by (intro retry_fail_again) simp_all
  have ih: "retry_loop w url n (map int [Suc a..<Suc a + length es] @ rest) (d * 2)
       (advance 1 (failed_attempt url (int a + 1) e d) st) =
     retry_loop w url n rest (d * 2 * 2 ^ length es)
       (advance (length es) (backoff_trace url (int (Suc a) + 1) es (d * 2))
          (advance 1 (failed_attempt url (int a + 1) e d) st))"
    using Cons.prems by (intro Cons.IH) (simp_all add: calls_advance)
  show ?case
    unfolding upt using step ih
    by (simp add: advance_advance add.commute mult.assoc)
qed

lemma raises_in_turn_append:
  "raises_in_turn w url c (xs @ ys) =
     (raises_in_turn w url c xs \<and> raises_in_turn w url (c + length xs) ys)"
  by (induction xs arbitrary: c) simp_all

lemma sleeps_accepted_iff:
  "sleeps_accepted d k = (k = 0 \<or> 0 \<le> d \<and> d * 2 ^ (k - 1) \<le> sleep_max)"
proof (induction k arbitrary: d)
  case 0
  show ?case by simp
next
  case (Suc k)
  show ?case
  proof (cases k)
    case 0
    then show ?thesis by simp
  next
    case (Suc j)
    have "0 \<le> d \<Longrightarrow> d * (2 * 2 ^ j) \<le> sleep_max \<Longrightarrow> d \<le> sleep_max"
    proof -
      assume "0 \<le> d" and le: "d * (2 * 2 ^ j) \<le> sleep_max"
      have "(1::int) \<le> 2 ^ Suc j" by (rule one_le_power) simp
      then have "(1::int) \<le> 2 * 2 ^ j" by simp
      from this \<open>0 \<le> d\<close> have "d * 1 \<le> d * (2 * 2 ^ j)" by (rule mult_left_mono)
      with le show "d \<le> sleep_max" by simp
    qed
    then show ?thesis
      using Suc.IH [of "d * 2"] Suc by (auto simp: mult.assoc)
  qed
qed


lemma waits_backoff_trace:
  "waits (backoff_trace url k es d) = map (\<lambda>i. d * 2 ^ i) [0..<length es]"
proof (induction es arbitrary: k d)
  case Nil
  show ?case by simp
next
  case (Cons e es)
  show ?case
    by (simp add: Cons.IH failed_attempt_def map_upt_Suc mult.assoc del: upt_Suc)
qed

lemma attempts_backoff_trace:
  "attempts (backoff_trace url k es d) = replicate (length es) url"
  by (induction es arbitrary: k d) (simp_all add: failed_attempt_def)


lemma artifacts_backoff_trace: "artifacts (backoff_trace url k es d) = []"
  by (induction es arbitrary: k d) (simp_all add: failed_attempt_def)

lemma after_last_attempt_tail:
  assumes "\<forall>ev \<in> set ys. \<not> is_attempt ev"
  shows "after_last_attempt (xs @ Scrape u # ys) = ys"
  using assms
  by (simp add: after_last_attempt_def takeWhile_tail takeWhile_eq_all_conv [THEN iffD2])

lemma range_py_split:
  "k < nat n \<Longrightarrow> range_py n = map int [0..<0 + k] @ int k # map int [Suc k..<nat n]"
proof -
  assume "k < nat n"
  then have "[0..<nat n] = [0..<k] @ [k..<nat n]"
    using upt_add_eq_append [of 0 k "nat n - k"] by simp
  with \<open>k < nat n\<close> have "[0..<nat n] = [0..<k] @ k # [Suc k..<nat n]"
    by (simp add: upt_conv_Cons)
  then show ?thesis by (simp add: range_py_def)
qed

lemma scrape_all_fail:
  assumes "1 \<le> n" and "sleeps_accepted d (nat n - 1)" and "length es = nat n"
    and "raises_in_turn w url (calls st) es"
  shows "scrape_with_retry w url n d st =
         (Inl (last es),
          advance (nat n) (backoff_trace url 1 (butlast es) d @ final_failure url n n (last es)) st)"
proof -
  let ?bs = "butlast es"
  from assms have ne: "es \<noteq> []" by auto
  then have es: "es = ?bs @ [last es]" by simp
  have len: "length ?bs = nat n - 1" using assms by simp
  have lt: "length ?bs < nat n" using assms len by linarith
  have r1: "raises_in_turn w url (calls st) ?bs"
    and r2: "err_of (engine w url (calls st + length ?bs)) = Some (last es)"
    using assms(4) es raises_in_turn_append [of w url "calls st" ?bs "[last es]"] by simp_all
  have "scrape_with_retry w url n d st =
        retry_loop w url n (map int [0..<0 + length ?bs] @ int (length ?bs) # map int [Suc (length ?bs)..<nat n]) d st"
    using range_py_split [OF lt] by (simp add: scrape_with_retry_def)
  also have "\<dots> = retry_loop w url n (int (length ?bs) # map int [Suc (length ?bs)..<nat n]) (d * 2 ^ length ?bs)
                     (advance (length ?bs) (backoff_trace url (int 0 + 1) ?bs d) st)"
    using r1 assms(2) lt len by (intro retry_failures) simp_all
  also have "\<dots> = (Inl (last es),
       advance 1 (final_failure url (int (length ?bs) + 1) n (last es))
         (advance (length ?bs) (backoff_trace url (int 0 + 1) ?bs d) st))"
    using r2 len assms(1) by (intro retry_fail_last) (simp_all add: calls_advance)
  finally show ?thesis
    using len assms(1) by (simp add: advance_advance)
qed

lemma scrape_succeeds_after:
  assumes "sleeps_accepted d (length es)" and "int (length es) < n"
    and "raises_in_turn w url (calls st) es"
    and "engine w url (calls st + length es) = Completes r info"
  shows "scrape_with_retry w url n d st =
         (Inr (Some r),
          advance (length es + 1) (backoff_trace url 1 es d @ [Scrape url, Print (ExecInfo info)]) st)"
proof -
  have lt: "length es < nat n" using assms(2) by linarith
  have "scrape_with_retry w url n d st =
        retry_loop w url n (map int [0..<0 + length es] @ int (length es) # map int [Suc (length es)..<nat n]) d st"
    using range_py_split [OF lt] by (simp add: scrape_with_retry_def)
  also have "\<dots> = retry_loop w url n (int (length es) # map int [Suc (length es)..<nat n]) (d * 2 ^ length es)
                     (advance (length es) (backoff_trace url (int 0 + 1) es d) st)"
    using assms by (intro retry_failures) simp_all
  also have "\<dots> = (Inr (Some r),
       advance 1 [Scrape url, Print (ExecInfo info)]
         (advance (length es) (backoff_trace url (int 0 + 1) es d) st))"
    using assms(4) by (intro retry_success) (simp add: calls_advance)
  finally show ?thesis
    by (simp add: advance_advance)
qed

section \<open>Properties of \<open>scrape_with_retry\<close>\<close>













subsection \<open>A failure after the scrape returned\<close>




lemma range_py_Cons: "1 \<le> n \<Longrightarrow> range_py n = 0 # map int [1..<nat n]"
  by (simp add: range_py_def upt_conv_Cons)





lemma backoff_trace_snoc:
  "backoff_trace url k (es @ [e]) d =
     backoff_trace url k es d @ failed_attempt url (k + int (length es)) e (d * 2 ^ length es)"
  by (induction es arbitrary: k d) (simp_all add: algebra_simps)




section \<open>File names\<close>

lemma split_py_not_Nil: "split_py c s \<noteq> []"
  by (induction s) simp_all

lemma split_py_no_sep: "c \<notin> set s \<Longrightarrow> split_py c s = [s]"
  by (induction s) auto

lemma split_py_append: "split_py c (p @ c # t) = split_py c p @ split_py c t"
proof (induction p)
  case Nil
  show ?case by simp
next
  case (Cons x p)
  show ?case
    using split_py_not_Nil [of c p]
    by (simp add: Cons.IH)
qed

lemma category_name_whole: "CHR ''/'' \<notin> set u \<Longrightarrow> category_name u = u"
  by (simp add: category_name_def split_py_no_sep)

lemma category_name_tail:
  "CHR ''/'' \<notin> set t \<Longrightarrow> category_name (p @ CHR ''/'' # t) = t"
  by (simp add: category_name_def split_py_append split_py_no_sep split_py_not_Nil)

lemma digit_char_is_digit: "d < 10 \<Longrightarrow> is_digit (digit_char d)"
  unfolding is_digit_def digit_char_def by (rule nth_mem) simp

lemma str_nat_digits: "\<forall>c \<in> set (str_nat n). is_digit c"
proof (induction n rule: str_nat.induct)
  case (1 n)
  show ?case
  proof (cases "n < 10")
    case True
    then show ?thesis
      by (subst str_nat.simps) (simp add: digit_char_is_digit)
  next
    case False
    with "1.IH" show ?thesis
      by (subst str_nat.simps) (simp add: digit_char_is_digit)
  qed
qed

lemma length_str_nat_1: "n < 10 \<Longrightarrow> length (str_nat n) = 1"
  by (subst str_nat.simps) simp

lemma length_str_nat_2: "10 \<le> n \<Longrightarrow> n < 100 \<Longrightarrow> length (str_nat n) = 2"
  by (subst str_nat.simps) (simp add: length_str_nat_1)

lemma length_str_nat_3: "100 \<le> n \<Longrightarrow> n < 1000 \<Longrightarrow> length (str_nat n) = 3"
  by (subst str_nat.simps) (simp add: length_str_nat_2)

lemma length_str_nat_4: "1000 \<le> n \<Longrightarrow> n < 10000 \<Longrightarrow> length (str_nat n) = 4"
  by (subst str_nat.simps) (simp add: length_str_nat_3)

lemma length_pad2: "n < 100 \<Longrightarrow> length (pad2 n) = 2"
  by (cases "n < 10") (simp_all add: pad2_def length_str_nat_1 length_str_nat_2)

lemma pad2_digits: "\<forall>c \<in> set (pad2 n). is_digit c"
  using str_nat_digits [of n] by (simp add: pad2_def is_digit_def)

lemma strftime_Ymd_shape:
  assumes "valid_date d"
  shows "length (strftime_Ymd d) = 8 \<and> (\<forall>c \<in> set (strftime_Ymd d). is_digit c)"
proof -
  from assms have "length (str_nat (year d)) = 4" "length (pad2 (mon d)) = 2"
    "length (pad2 (mday d)) = 2"
    by (simp_all add: valid_date_def length_str_nat_4 length_pad2)
  then show ?thesis
    using str_nat_digits [of "year d"] pad2_digits [of "mon d"] pad2_digits [of "mday d"]
    by (auto simp: strftime_Ymd_def)
qed

lemma digit_val_digit_char: "d < 10 \<Longrightarrow> digit_val (digit_char d) = d"
proof -
  assume "d < 10"
  then have "d = 0 \<or> d = 1 \<or> d = 2 \<or> d = 3 \<or> d = 4 \<or> d = 5 \<or> d = 6 \<or> d = 7 \<or>
    d = 8 \<or> d = 9"
    by arith
  then show ?thesis
    by (elim disjE) (simp_all add: digit_val_def digit_char_def)
qed

lemma read_nat_snoc: "read_nat (s @ [c]) = 10 * read_nat s + digit_val c"
  by (simp add: read_nat_def)

lemma read_nat_str_nat: "read_nat (str_nat n) = n"
proof (induction n rule: str_nat.induct)
  case (1 n)
  show ?case
  proof (cases "n < 10")
    case True
    then have "str_nat n = [digit_char n]"
      by (subst str_nat.simps) simp
    with True show ?thesis
      by (simp add: read_nat_def digit_val_digit_char)
  next
    case False
    then have "str_nat n = str_nat (n div 10) @ [digit_char (n mod 10)]"
      by (subst str_nat.simps) simp
    with False "1.IH" show ?thesis
      by (simp add: read_nat_snoc digit_val_digit_char)
  qed
qed

lemma read_nat_zero: "read_nat (CHR ''0'' # s) = read_nat s"
  by (simp add: read_nat_def digit_val_def)

lemma read_nat_pad2: "read_nat (pad2 n) = n"
  by (simp add: pad2_def read_nat_zero read_nat_str_nat)

text \<open>
  The date part reads back as the date: its first four characters as the year, the
  next two as the month, the last two as the day of the month.
\<close>

lemma strftime_Ymd_reads:
  assumes "valid_date d"
  shows "read_nat (take 4 (strftime_Ymd d)) = year d \<and>
         read_nat (take 2 (drop 4 (strftime_Ymd d))) = mon d \<and>
         read_nat (drop 6 (strftime_Ymd d)) = mday d"
proof -
  from assms have l: "length (str_nat (year d)) = 4" "length (pad2 (mon d)) = 2"
    by (simp_all add: valid_date_def length_str_nat_4 length_pad2)
  then show ?thesis
    by (simp add: strftime_Ymd_def read_nat_str_nat read_nat_pad2)
qed




section \<open>One pass of the main loop\<close>

lemma sleeps_accepted_5: "k \<le> 2 \<Longrightarrow> sleeps_accepted 5 k"
proof -
  assume "k \<le> 2"
  then consider "k = 0" | "k = 1" | "k = 2" by linarith
  then show ?thesis
    by cases (simp_all add: sleeps_accepted_iff sleep_max_def)
qed

lemma announced_append: "announced (xs @ ys) = announced xs @ announced ys"
  by (induction xs rule: announced.induct) simp_all

lemma announced_backoff_trace: "announced (backoff_trace url k es d) = []"
  by (induction es arbitrary: k d) (simp_all add: failed_attempt_def)

lemma py_print_advance: "py_print m st = advance 0 [Print m] st"
  by (simp add: py_print_def emit_def advance_def)

lemma item_exhausted:
  assumes "length es = 3" and "raises_in_turn w u (calls st) es"
  shows "process_item w u st =
         (Inr (), advance 3
            (Print (ScrapingCategory u) # backoff_trace u 1 (butlast es) 5 @
             final_failure u 3 3 (last es) @ [Print (ErrorScraping u (last es))]) st)"
proof -
  have r: "raises_in_turn w u (calls (advance 0 [Print (ScrapingCategory u)] st)) es"
    using assms(2) by (simp add: calls_advance)
  have "scrape_with_retry w u 3 5 (advance 0 [Print (ScrapingCategory u)] st) =
        (Inl (last es), advance (nat 3)
           (backoff_trace u 1 (butlast es) 5 @ final_failure u 3 3 (last es))
           (advance 0 [Print (ScrapingCategory u)] st))"
    using assms(1) r by (intro scrape_all_fail) (simp_all add: sleeps_accepted_5)
  then show ?thesis
    by (simp add: process_item_def item_body_def py_print_advance advance_advance)
qed

lemma item_completes:
  assumes "length es < 3" and "raises_in_turn w u (calls st) es"
    and "engine w u (calls st + length es) = Completes r info"
  shows "scrape_with_retry w u 3 5 (py_print (ScrapingCategory u) st) =
         (Inr (Some r), advance (length es + 1)
            (Print (ScrapingCategory u) # backoff_trace u 1 es 5 @
             [Scrape u, Print (ExecInfo info)]) st)"
proof -
  have r: "raises_in_turn w u (calls (advance 0 [Print (ScrapingCategory u)] st)) es"
    using assms(2) by (simp add: calls_advance)
  have c: "engine w u (calls (advance 0 [Print (ScrapingCategory u)] st) + length es) = Completes r info"
    using assms(3) by (simp add: calls_advance)
  have "scrape_with_retry w u 3 5 (advance 0 [Print (ScrapingCategory u)] st) =
        (Inr (Some r), advance (length es + 1)
           (backoff_trace u 1 es 5 @ [Scrape u, Print (ExecInfo info)])
           (advance 0 [Print (ScrapingCategory u)] st))"
    using assms(1) r c by (intro scrape_succeeds_after) (simp_all add: sleeps_accepted_5)
  then show ?thesis
    by (simp add: py_print_advance advance_advance)
qed

lemma item_saved:
  assumes "length es < 3" and "raises_in_turn w u (calls st) es"
    and "engine w u (calls st + length es) = Completes r info"
    and "f = filename_of u (localtime w (calls st + length es + 1))"
    and "disk w f (calls st + length es + 1) = Written"
  shows "process_item w u st =
         (Inr (), (advance (length es + 1)
            (Print (ScrapingCategory u) # backoff_trace u 1 es 5 @
             [Scrape u, Print (ExecInfo info), Open f, Write f (py_str w r),
              Print (ResultsSaved f), Sleep 5]) st)
            \<lparr>files := (files st)(f \<mapsto> py_str w r)\<rparr>)"
  unfolding process_item_def item_body_def Let_def item_completes [OF assms(1-3)]
  using assms(4,5)
  by (simp add: calls_advance py_print_def py_sleep_def sleep_max_def emit_def advance_def)

lemma item_open_raises:
  assumes "length es < 3" and "raises_in_turn w u (calls st) es"
    and "engine w u (calls st + length es) = Completes r info"
    and "f = filename_of u (localtime w (calls st + length es + 1))"
    and "disk w f (calls st + length es + 1) = OpenRaises e"
  shows "process_item w u st =
         (Inr (), advance (length es + 1)
            (Print (ScrapingCategory u) # backoff_trace u 1 es 5 @
             [Scrape u, Print (ExecInfo info), Print (ErrorScraping u e)]) st)"
  unfolding process_item_def item_body_def Let_def item_completes [OF assms(1-3)]
  using assms(4,5)
  by (simp add: calls_advance py_print_def py_sleep_def sleep_max_def emit_def advance_def)

lemma item_write_raises:
  assumes "length es < 3" and "raises_in_turn w u (calls st) es"
    and "engine w u (calls st + length es) = Completes r info"
    and "f = filename_of u (localtime w (calls st + length es + 1))"
    and "disk w f (calls st + length es + 1) = WriteRaises e"
  shows "process_item w u st =
         (Inr (), (advance (length es + 1)
            (Print (ScrapingCategory u) # backoff_trace u 1 es 5 @
             [Scrape u, Print (ExecInfo info), Open f, Print (ErrorScraping u e)]) st)
            \<lparr>files := (files st)(f \<mapsto> [])\<rparr>)"
  unfolding process_item_def item_body_def Let_def item_completes [OF assms(1-3)]
  using assms(4,5)
  by (simp add: calls_advance py_print_def py_sleep_def sleep_max_def emit_def advance_def)

lemma raises_leading_errors: "raises_in_turn w u c (leading_errors w u c k)"
  by (induction k arbitrary: c) (simp_all split: option.splits)

lemma length_leading_errors: "length (leading_errors w u c k) \<le> k"
  by (induction k arbitrary: c) (simp_all split: option.splits)

lemma leading_errors_stop:
  "length (leading_errors w u c k) < k \<Longrightarrow>
   err_of (engine w u (c + length (leading_errors w u c k))) = None"
proof (induction k arbitrary: c)
  case 0
  then show ?case by simp
next
  case (Suc k)
  show ?case
  proof (cases "err_of (engine w u c)")
    case None
    then show ?thesis by simp
  next
    case (Some e)
    with Suc.prems have "length (leading_errors w u (Suc c) k) < k" by simp
    from Suc.IH [OF this] Some show ?thesis by simp
  qed
qed

lemma err_of_None: "err_of out = None \<Longrightarrow> out = Completes (the (result_of out)) (info_of out)"
  by (cases out) simp_all

lemma leading_errors_3:
  "leading_errors w u c 3 =
     (case err_of (engine w u c) of
        None \<Rightarrow> []
      | Some e0 \<Rightarrow>
          e0 # (case err_of (engine w u (c + 1)) of
                  None \<Rightarrow> []
                | Some e1 \<Rightarrow>
                    e1 # (case err_of (engine w u (c + 2)) of
                            None \<Rightarrow> []
                          | Some e2 \<Rightarrow> [e2])))"
  by (simp add: numeral_3_eq_3 split: option.splits)

lemma new_events_files: "new_events st ((advance k evs st)\<lparr>files := F\<rparr>) = evs"
  by (simp add: new_events_def advance_def)

lemma files_unchanged: "(advance k evs st)\<lparr>files := files st\<rparr> = advance k evs st"
  by (simp add: advance_def)

lemma item_runs_cases:
  "item_runs w u st =
     (if length (leading_errors w u (calls st) 3) = 3 then 3
      else length (leading_errors w u (calls st) 3) + 1)"
  using length_leading_errors [of w u "calls st" 3] by (simp add: item_runs_def)

lemma take_5_10:
  "n \<le> 2 \<Longrightarrow> map (\<lambda>i. (5::int) * 2 ^ i) [0..<n] = take n [5, 10]"
proof -
  assume "n \<le> 2"
  then consider "n = 0" | "n = 1" | "n = 2" by linarith
  then show ?thesis
    by cases (simp_all add: upt_rec)
qed

text \<open>
  Whatever the world answers, one pass of the loop body returns normally, uses
  \<open>item_runs\<close> engine runs, announces the item once, writes the expected file or none,
  and sleeps the throttle delay only when the item did not fail.
\<close>

lemma process_item_shape:
  obtains evs F where
    "process_item w u st = (Inr (), (advance (item_runs w u st) evs st)\<lparr>files := F\<rparr>)"
    "announced evs = [u]"
    "attempts evs = replicate (item_runs w u st) u"
    "artifacts evs = (case item_artifact w u st of None \<Rightarrow> [] | Some a \<Rightarrow> [a])"
    "waits evs = take (length (leading_errors w u (calls st) 3)) [5, 10] @
                 (if fails_terminally w u st then [] else [5])"
    "waits (after_last_attempt evs) = (if fails_terminally w u st then [] else [5])"
    "F = files st \<or> (\<exists>c. F = (files st)(item_filename w u st \<mapsto> c))"
    "\<forall>f c. item_artifact w u st = Some (f, c) \<longrightarrow> F f = Some c"
proof -
  let ?es = "leading_errors w u (calls st) 3"
  have r: "raises_in_turn w u (calls st) ?es"
    by (rule raises_leading_errors)
  show thesis
  proof (cases "length ?es = 3")
    case True
    let ?evs = "Print (ScrapingCategory u) # backoff_trace u 1 (butlast ?es) 5 @
             final_failure u 3 3 (last ?es) @ [Print (ErrorScraping u (last ?es))]"
    have ft: "fails_terminally w u st"
      using True by (simp add: fails_terminally_def exhausts_def)
    have al: "after_last_attempt ((Print (ScrapingCategory u) # backoff_trace u 1 (butlast ?es) 5) @
          Scrape u # [Print (AttemptFailed 3 u (last ?es)), Print (FailedAfter u 3),
                      Print (ErrorScraping u (last ?es))]) =
        [Print (AttemptFailed 3 u (last ?es)), Print (FailedAfter u 3),
         Print (ErrorScraping u (last ?es))]"
      by (rule after_last_attempt_tail) simp
    show thesis
    proof (rule that [where evs = ?evs and F = "files st"])
      show "process_item w u st = (Inr (), (advance (item_runs w u st) ?evs st)\<lparr>files := files st\<rparr>)"
        using item_exhausted [OF True r] True by (simp add: item_runs_cases files_unchanged)
      show "announced ?evs = [u]"
        by (simp add: announced_append announced_backoff_trace final_failure_def)
      show "attempts ?evs = replicate (item_runs w u st) u"
        using True
        by (simp add: attempts_append attempts_backoff_trace final_failure_def item_runs_cases
            numeral_3_eq_3)
      show "artifacts ?evs = (case item_artifact w u st of None \<Rightarrow> [] | Some a \<Rightarrow> [a])"
        using ft by (simp add: artifacts_append artifacts_backoff_trace final_failure_def item_artifact_def)
      show "waits ?evs = take (length ?es) [5, 10] @ (if fails_terminally w u st then [] else [5])"
        using ft True by (simp add: waits_append waits_backoff_trace final_failure_def take_5_10)
      show "waits (after_last_attempt ?evs) = (if fails_terminally w u st then [] else [5])"
        using ft al by (simp add: final_failure_def)
      show "files st = files st \<or> (\<exists>c. files st = (files st)(item_filename w u st \<mapsto> c))"
        by simp
      show "\<forall>f c. item_artifact w u st = Some (f, c) \<longrightarrow> files st f = Some c"
        using ft by (simp add: item_artifact_def)
    qed
  next
    case False
    with length_leading_errors [of w u "calls st" 3] have lt: "length ?es < 3" by simp
    from leading_errors_stop [OF lt] obtain r' info where
      c: "engine w u (calls st + length ?es) = Completes r' info"
      using err_of_None by blast
    have runs: "item_runs w u st = length ?es + 1"
      using False by (simp add: item_runs_cases)
    let ?f = "filename_of u (localtime w (calls st + length ?es + 1))"
    have fn: "item_filename w u st = ?f"
      by (simp add: item_filename_def runs)
    have ps: "item_persist w u st = disk w ?f (calls st + length ?es + 1)"
      by (simp add: item_persist_def fn runs)
    have res: "item_result w u st = Some r'"
      by (simp add: item_result_def c)
    have le2: "length ?es \<le> 2" using lt by simp
    have al: "\<And>ys. \<forall>ev\<in>set ys. \<not> is_attempt ev \<Longrightarrow>
        after_last_attempt ((Print (ScrapingCategory u) # backoff_trace u 1 ?es 5) @
          Scrape u # ys) = ys"
      by (rule after_last_attempt_tail)
    show thesis
    proof (cases "disk w ?f (calls st + length ?es + 1)")
      case (OpenRaises e)
      let ?evs = "Print (ScrapingCategory u) # backoff_trace u 1 ?es 5 @
             [Scrape u, Print (ExecInfo info), Print (ErrorScraping u e)]"
      have ft: "fails_terminally w u st"
        using OpenRaises by (simp add: fails_terminally_def ps)
      show thesis
      proof (rule that [where evs = ?evs and F = "files st"])
        show "process_item w u st = (Inr (), (advance (item_runs w u st) ?evs st)\<lparr>files := files st\<rparr>)"
          using item_open_raises [OF lt r c refl OpenRaises] by (simp add: runs files_unchanged)
        show "announced ?evs = [u]"
          by (simp add: announced_append announced_backoff_trace)
        show "attempts ?evs = replicate (item_runs w u st) u"
          by (simp add: attempts_append attempts_backoff_trace runs replicate_append_same)
        show "artifacts ?evs = (case item_artifact w u st of None \<Rightarrow> [] | Some a \<Rightarrow> [a])"
          using ft by (simp add: artifacts_append artifacts_backoff_trace item_artifact_def)
        show "waits ?evs = take (length ?es) [5, 10] @ (if fails_terminally w u st then [] else [5])"
          using ft by (simp add: waits_append waits_backoff_trace take_5_10 [OF le2])
        show "waits (after_last_attempt ?evs) = (if fails_terminally w u st then [] else [5])"
          using ft al [of "[Print (ExecInfo info), Print (ErrorScraping u e)]"] by simp
        show "files st = files st \<or> (\<exists>c. files st = (files st)(item_filename w u st \<mapsto> c))"
          by simp
        show "\<forall>f c. item_artifact w u st = Some (f, c) \<longrightarrow> files st f = Some c"
          using ft by (simp add: item_artifact_def)
      qed
    next
      case (WriteRaises e)
      let ?evs = "Print (ScrapingCategory u) # backoff_trace u 1 ?es 5 @
             [Scrape u, Print (ExecInfo info), Open ?f, Print (ErrorScraping u e)]"
      have ft: "fails_terminally w u st"
        using WriteRaises by (simp add: fails_terminally_def ps)
      show thesis
      proof (rule that [where evs = ?evs and F = "(files st)(?f \<mapsto> [])"])
        show "process_item w u st =
            (Inr (), (advance (item_runs w u st) ?evs st)\<lparr>files := (files st)(?f \<mapsto> [])\<rparr>)"
          using item_write_raises [OF lt r c refl WriteRaises] by (simp add: runs)
        show "announced ?evs = [u]"
          by (simp add: announced_append announced_backoff_trace)
        show "attempts ?evs = replicate (item_runs w u st) u"
          by (simp add: attempts_append attempts_backoff_trace runs replicate_append_same)
        show "artifacts ?evs = (case item_artifact w u st of None \<Rightarrow> [] | Some a \<Rightarrow> [a])"
          using ft by (simp add: artifacts_append artifacts_backoff_trace item_artifact_def)
        show "waits ?evs = take (length ?es) [5, 10] @ (if fails_terminally w u st then [] else [5])"
          using ft by (simp add: waits_append waits_backoff_trace take_5_10 [OF le2])
        show "waits (after_last_attempt ?evs) = (if fails_terminally w u st then [] else [5])"
          using ft al [of "[Print (ExecInfo info), Open ?f, Print (ErrorScraping u e)]"] by simp
        show "(files st)(?f \<mapsto> []) = files st \<or>
            (\<exists>c. (files st)(?f \<mapsto> []) = (files st)(item_filename w u st \<mapsto> c))"
          using fn by auto
        show "\<forall>f c. item_artifact w u st = Some (f, c) \<longrightarrow>
            ((files st)(?f \<mapsto> [])) f = Some c"
          using ft by (simp add: item_artifact_def)
      qed
    next
      case Written
      let ?evs = "Print (ScrapingCategory u) # backoff_trace u 1 ?es 5 @
             [Scrape u, Print (ExecInfo info), Open ?f, Write ?f (py_str w r'),
              Print (ResultsSaved ?f), Sleep 5]"
      have ft: "\<not> fails_terminally w u st"
        using Written False by (simp add: fails_terminally_def ps exhausts_def)
      show thesis
      proof (rule that [where evs = ?evs and F = "(files st)(?f \<mapsto> py_str w r')"])
        show "process_item w u st =
            (Inr (), (advance (item_runs w u st) ?evs st)\<lparr>files := (files st)(?f \<mapsto> py_str w r')\<rparr>)"
          using item_saved [OF lt r c refl Written] by (simp add: runs)
        show "announced ?evs = [u]"
          by (simp add: announced_append announced_backoff_trace)
        show "attempts ?evs = replicate (item_runs w u st) u"
          by (simp add: attempts_append attempts_backoff_trace runs replicate_append_same)
        show "artifacts ?evs = (case item_artifact w u st of None \<Rightarrow> [] | Some a \<Rightarrow> [a])"
          using ft by (simp add: artifacts_append artifacts_backoff_trace item_artifact_def fn res)
        show "waits ?evs = take (length ?es) [5, 10] @ (if fails_terminally w u st then [] else [5])"
          using ft by (simp add: waits_append waits_backoff_trace take_5_10 [OF le2])
        show "waits (after_last_attempt ?evs) = (if fails_terminally w u st then [] else [5])"
          using ft al [of "[Print (ExecInfo info), Open ?f, Write ?f (py_str w r'),
              Print (ResultsSaved ?f), Sleep 5]"] by simp
        show "(files st)(?f \<mapsto> py_str w r') = files st \<or>
            (\<exists>c. (files st)(?f \<mapsto> py_str w r') = (files st)(item_filename w u st \<mapsto> c))"
          using fn by auto
        show "\<forall>f c. item_artifact w u st = Some (f, c) \<longrightarrow>
            ((files st)(?f \<mapsto> py_str w r')) f = Some c"
          using ft by (simp add: item_artifact_def fn res)
      qed
    qed
  qed
qed

lemma process_item_returns: "fst (process_item w u st) = Inr ()"
  by (simp add: process_item_def split: prod.splits sum.splits)

lemma process_item_artifacts:
  "artifacts (new_events st (snd (process_item w u st))) =
     (case item_artifact w u st of None \<Rightarrow> [] | Some a \<Rightarrow> [a])"
proof -
  obtain evs F where
    p: "process_item w u st = (Inr (), (advance (item_runs w u st) evs st)\<lparr>files := F\<rparr>)"
    and f: "artifacts evs = (case item_artifact w u st of None \<Rightarrow> [] | Some a \<Rightarrow> [a])"
    by (rule process_item_shape)
  show ?thesis
    by (simp only: p snd_conv new_events_files f)
qed

lemma process_item_waits:
  "waits (new_events st (snd (process_item w u st))) =
     take (length (leading_errors w u (calls st) 3)) [5, 10] @
     (if fails_terminally w u st then [] else [5])"
proof -
  obtain evs F where
    p: "process_item w u st = (Inr (), (advance (item_runs w u st) evs st)\<lparr>files := F\<rparr>)"
    and ws: "waits evs = take (length (leading_errors w u (calls st) 3)) [5, 10] @
                 (if fails_terminally w u st then [] else [5])"
    by (rule process_item_shape)
  show ?thesis
    by (simp only: p snd_conv new_events_files ws)
qed

lemma runner_waits:
  "waits (new_events st (snd (scrape_with_retry w u 3 5 st))) =
     take (length (leading_errors w u (calls st) 3)) [5, 10]"
proof -
  let ?es = "leading_errors w u (calls st) 3"
  have r: "raises_in_turn w u (calls st) ?es"
    by (rule raises_leading_errors)
  show ?thesis
  proof (cases "length ?es = 3")
    case True
    have "scrape_with_retry w u 3 5 st =
        (Inl (last ?es), advance (nat 3)
           (backoff_trace u 1 (butlast ?es) 5 @ final_failure u 3 3 (last ?es)) st)"
      using True r by (intro scrape_all_fail) (simp_all add: sleeps_accepted_5)
    then show ?thesis
      using True
      by (simp add: new_events_advance waits_append waits_backoff_trace final_failure_def take_5_10)
  next
    case False
    with length_leading_errors [of w u "calls st" 3] have lt: "length ?es < 3" by simp
    from leading_errors_stop [OF lt] obtain r' info where
      c: "engine w u (calls st + length ?es) = Completes r' info"
      using err_of_None by blast
    have le2: "length ?es \<le> 2" using lt by simp
    have "scrape_with_retry w u 3 5 st =
        (Inr (Some r'), advance (length ?es + 1)
           (backoff_trace u 1 ?es 5 @ [Scrape u, Print (ExecInfo info)]) st)"
      using lt r c by (intro scrape_succeeds_after) (simp_all add: sleeps_accepted_5)
    then show ?thesis
      by (simp add: new_events_advance waits_append waits_backoff_trace take_5_10 [OF le2])
  qed
qed

lemma process_item_delay:
  "waits (after_last_attempt (new_events st (snd (process_item w u st)))) =
     (if fails_terminally w u st then [] else [5])"
proof -
  obtain evs F where
    p: "process_item w u st = (Inr (), (advance (item_runs w u st) evs st)\<lparr>files := F\<rparr>)"
    and ws: "waits (after_last_attempt evs) = (if fails_terminally w u st then [] else [5])"
    by (rule process_item_shape)
  show ?thesis
    by (simp only: p snd_conv new_events_files ws)
qed




section \<open>The batch\<close>

lemma main_loop_append:
  "main_loop w (xs @ ys) st = main_loop w ys (snd (main_loop w xs st))"
proof (induction xs arbitrary: st)
  case Nil
  show ?case by simp
next
  case (Cons u us)
  obtain res st1 where p: "process_item w u st = (res, st1)" by (cases "process_item w u st")
  with process_item_returns [of w u st] have "res = Inr ()" by simp
  with p show ?case by (simp add: Cons.IH)
qed



lemma item_runs_bounds: "1 \<le> item_runs w u st \<and> item_runs w u st \<le> 3"
  by (simp add: item_runs_def)





lemmas run_defs = script_def categories_def process_item_def item_body_def scrape_with_retry_def
  range_py_def upt_rec try_body_def py_print_def py_sleep_def sleep_max_def emit_def start_def
  filename_of_def category_name_def strftime_Ymd_def pad2_def str_nat.simps digit_char_def Let_def












text \<open>
  C6. The specification has the fixed delay after every item, failed or not. In the
  source \<open>time.sleep(5)\<close> is the last statement of the \<open>try\<close> block, under the
  comment "Add delay between categories to avoid rate limiting", so an item that
  raises skips it. When "Tablets" exhausts its retries, the error message of
  "Tablets" is followed at once by the start of "Computers": the only sleeps of the
  item are the two backoff sleeps, while the two items that succeed each end with
  \<open>Sleep 5\<close>.
\<close>

theorem failed_item_skips_delay:
  "trace (snd (script tablets_down start)) =
       [Print (ScrapingCategory ''Cell Phones''), Scrape ''Cell Phones'',
        Print (ExecInfo ''nodes: 4''),
        Open ''mobilesentrix_Cell Phones_20240307.json'',
        Write ''mobilesentrix_Cell Phones_20240307.json'' ''{items: []}'',
        Print (ResultsSaved ''mobilesentrix_Cell Phones_20240307.json''),
        Sleep 5,
        Print (ScrapingCategory ''Tablets''), Scrape ''Tablets'',
        Print (AttemptFailed 1 ''Tablets'' (Exception ''timeout'')),
        Print (Waiting 5), Sleep 5, Scrape ''Tablets'',
        Print (AttemptFailed 2 ''Tablets'' (Exception ''timeout'')),
        Print (Waiting 10), Sleep 10, Scrape ''Tablets'',
        Print (AttemptFailed 3 ''Tablets'' (Exception ''timeout'')),
        Print (FailedAfter ''Tablets'' 3),
        Print (ErrorScraping ''Tablets'' (Exception ''timeout'')),
        Print (ScrapingCategory ''Computers''), Scrape ''Computers'',
        Print (ExecInfo ''nodes: 4''),
        Open ''mobilesentrix_Computers_20240307.json'',
        Write ''mobilesentrix_Computers_20240307.json'' ''{items: []}'',
        Print (ResultsSaved ''mobilesentrix_Computers_20240307.json''),
        Sleep 5]"
  by (simp add: run_defs tablets_down_def)

section \<open>The output file\<close>

text \<open>
  C7. An item that does not fail terminally writes exactly one file, and its name is
  the fixed prefix, an underscore, the last path segment of the item identifier, an
  underscore, the local date at that moment formatted by \<open>%Y%m%d\<close>, and \<open>.json\<close>.
  The last path segment is the whole identifier when it has no \<open>/\<close>, and what follows
  the last \<open>/\<close> otherwise. The date part of a date with a four-digit year is eight
  decimal digits: the first four read as the year, the next two as the month and the
  last two as the day of that date.
\<close>

theorem artifact_name_derived:
  assumes "\<not> fails_terminally w u st"
  shows "map fst (artifacts (new_events st (snd (process_item w u st)))) =
           [''mobilesentrix_'' @ category_name u @ ''_'' @
            strftime_Ymd (localtime w (calls st + item_runs w u st)) @ ''.json''] \<and>
         (CHR ''/'' \<notin> set u \<longrightarrow> category_name u = u) \<and>
         (\<forall>p t. u = p @ CHR ''/'' # t \<and> CHR ''/'' \<notin> set t \<longrightarrow> category_name u = t) \<and>
         (valid_date (localtime w (calls st + item_runs w u st)) \<longrightarrow>
            length (strftime_Ymd (localtime w (calls st + item_runs w u st))) = 8 \<and>
            (\<forall>c \<in> set (strftime_Ymd (localtime w (calls st + item_runs w u st))). is_digit c) \<and>
            read_nat (take 4 (strftime_Ymd (localtime w (calls st + item_runs w u st)))) =
              year (localtime w (calls st + item_runs w u st)) \<and>
            read_nat (take 2 (drop 4 (strftime_Ymd (localtime w (calls st + item_runs w u st))))) =
              mon (localtime w (calls st + item_runs w u st)) \<and>
            read_nat (drop 6 (strftime_Ymd (localtime w (calls st + item_runs w u st)))) =
              mday (localtime w (calls st + item_runs w u st)))"
proof -
  let ?d = "localtime w (calls st + item_runs w u st)"
  have "map fst (artifacts (new_events st (snd (process_item w u st)))) =
           [''mobilesentrix_'' @ category_name u @ ''_'' @ strftime_Ymd ?d @ ''.json'']"
    using assms
    by (simp add: process_item_artifacts item_artifact_def item_filename_def filename_of_def)
  moreover have "\<forall>p t. u = p @ CHR ''/'' # t \<and> CHR ''/'' \<notin> set t \<longrightarrow> category_name u = t"
    using category_name_tail by blast
  moreover have "CHR ''/'' \<notin> set u \<longrightarrow> category_name u = u"
    using category_name_whole by blast
  moreover have "valid_date ?d \<longrightarrow>
      length (strftime_Ymd ?d) = 8 \<and> (\<forall>c \<in> set (strftime_Ymd ?d). is_digit c) \<and>
      read_nat (take 4 (strftime_Ymd ?d)) = year ?d \<and>
      read_nat (take 2 (drop 4 (strftime_Ymd ?d))) = mon ?d \<and>
      read_nat (drop 6 (strftime_Ymd ?d)) = mday ?d"
    using strftime_Ymd_shape [of ?d] strftime_Ymd_reads [of ?d] by blast
  ultimately show ?thesis by blast
qed

theorem artifact_name_derived_witness:
  "map fst (artifacts (trace (snd (process_item slash_world ''catalog/phones'' start)))) =
     [''mobilesentrix_phones_20241104.json''] \<and>
   category_name ''catalog/phones'' = ''phones'' \<and>
   read_nat (take 4 ''20241104'') = 2024 \<and>
   read_nat (take 2 (drop 4 ''20241104'')) = 11 \<and>
   read_nat (drop 6 ''20241104'') = 4"
proof -
  have l: "leading_errors slash_world ''catalog/phones'' (calls start) 3 = []"
    by (simp add: leading_errors_3 slash_world_def)
  have r: "item_runs slash_world ''catalog/phones'' start = 1"
    by (simp add: item_runs_def l)
  have f: "\<not> fails_terminally slash_world ''catalog/phones'' start"
    unfolding fails_terminally_def exhausts_def item_persist_def l
    by (simp add: slash_world_def)
  have d: "strftime_Ymd (localtime slash_world (calls start + 1)) = ''20241104''"
    by (simp add: slash_world_def strftime_Ymd_def pad2_def str_nat.simps digit_char_def)
  have v: "valid_date (localtime slash_world (calls start + 1))"
    by (simp add: valid_date_def slash_world_def)
  have y: "year (localtime slash_world (calls start + 1)) = 2024"
    "mon (localtime slash_world (calls start + 1)) = 11"
    "mday (localtime slash_world (calls start + 1)) = 4"
    by (simp_all add: slash_world_def)
  have s: "''catalog/phones'' = ''catalog'' @ CHR ''/'' # ''phones'' \<and> CHR ''/'' \<notin> set ''phones''"
    by simp
  note t = artifact_name_derived [OF f, unfolded r]
  from t s have c: "category_name ''catalog/phones'' = ''phones''"
    by blast
  from t v have
    "read_nat (take 4 (strftime_Ymd (localtime slash_world (calls start + 1)))) =
       year (localtime slash_world (calls start + 1)) \<and>
     read_nat (take 2 (drop 4 (strftime_Ymd (localtime slash_world (calls start + 1))))) =
       mon (localtime slash_world (calls start + 1)) \<and>
     read_nat (drop 6 (strftime_Ymd (localtime slash_world (calls start + 1)))) =
       mday (localtime slash_world (calls start + 1))"
    by blast
  then have rd: "read_nat (take 4 ''20241104'') = 2024 \<and>
     read_nat (take 2 (drop 4 ''20241104'')) = 11 \<and>
     read_nat (drop 6 ''20241104'') = 4"
    unfolding d y .
  from t have
    "map fst (artifacts (new_events start (snd (process_item slash_world ''catalog/phones'' start)))) =
           [''mobilesentrix_'' @ category_name ''catalog/phones'' @ ''_'' @
            strftime_Ymd (localtime slash_world (calls start + 1)) @ ''.json'']"
    by blast
  then have "map fst (artifacts (trace (snd (process_item slash_world ''catalog/phones'' start)))) =
     [''mobilesentrix_phones_20241104.json'']"
    unfolding d c by (simp add: new_events_def start_def)
  with c rd show ?thesis by blast
qed

text \<open>
  C8. When an attempt of the item completes with result \<open>r\<close> and the file system
  accepts the write, the content written, and the content of the file afterwards, is
  \<open>str(r)\<close> as Python gives it: whatever another encoding \<open>enc\<close> of \<open>r\<close> would be, the
  file holds \<open>enc r\<close> only if that is the same text.
\<close>

theorem raw_string_persisted:
  assumes "length es < 3" and "raises_in_turn w u (calls st) es"
    and "engine w u (calls st + length es) = Completes r info"
    and "f = filename_of u (localtime w (calls st + length es + 1))"
    and "disk w f (calls st + length es + 1) = Written"
  shows "case process_item w u st of (res, st') \<Rightarrow>
           artifacts (new_events st st') = [(f, py_str w r)] \<and>
           files st' f = Some (py_str w r) \<and>
           (\<forall>enc. enc r \<noteq> py_str w r \<longrightarrow> files st' f \<noteq> Some (enc r))"
  by (simp add: item_saved [OF assms] new_events_files artifacts_append artifacts_backoff_trace)

theorem raw_string_persisted_witness:
  "files (snd (process_item slash_world ''catalog/phones'' start))
     ''mobilesentrix_phones_20241104.json'' = Some ''<{items: []}>''"
proof -
  have fn: "''mobilesentrix_phones_20241104.json'' =
      filename_of ''catalog/phones'' (localtime slash_world (calls start + length ([]::exn list) + 1))"
    by (simp add: slash_world_def filename_of_def category_name_def strftime_Ymd_def pad2_def
        str_nat.simps digit_char_def)
  have c: "engine slash_world ''catalog/phones'' (calls start + length ([]::exn list)) =
             Completes ''{items: []}'' ''nodes: 4''"
    by (simp add: slash_world_def)
  have d: "disk slash_world ''mobilesentrix_phones_20241104.json''
             (calls start + length ([]::exn list) + 1) = Written"
    by (simp add: slash_world_def)
  have p: "py_str slash_world ''{items: []}'' = ''<{items: []}>''"
    by (simp add: slash_world_def)
  from raw_string_persisted [of "[]" slash_world "''catalog/phones''" start "''{items: []}''"
      "''nodes: 4''" "''mobilesentrix_phones_20241104.json''", OF _ _ c fn d]
  show ?thesis
    unfolding p by (simp split: prod.splits)
qed

section \<open>Backoff state is local to a call\<close>

text \<open>
  C9. Take any item \<open>u\<close> of a batch, after any items \<open>earlier\<close> and whatever happened
  while they were processed. The loop processes \<open>u\<close> in the state the earlier items
  left, and the sleeps of its call of \<open>scrape_with_retry\<close> are \<open>5\<close>, then \<open>10\<close>, one per
  failed attempt that is retried: the sequence starts at \<open>5\<close> again for every item. The
  sleeps of the whole pass are these, followed by the throttle delay when the item
  did not fail.
\<close>

theorem backoff_restarts_per_item:
  "main_loop w (earlier @ u # later) st =
     main_loop w later (snd (process_item w u (snd (main_loop w earlier st)))) \<and>
   (let s = snd (main_loop w earlier st); s1 = py_print (ScrapingCategory u) s in
      waits (new_events s1 (snd (scrape_with_retry w u 3 5 s1))) =
        take (length (leading_errors w u (calls s) 3)) [5, 10] \<and>
      waits (new_events s (snd (process_item w u s))) =
        take (length (leading_errors w u (calls s) 3)) [5, 10] @
        (if fails_terminally w u s then [] else [5]))"
proof -
  have "main_loop w (earlier @ u # later) st =
        main_loop w (u # later) (snd (main_loop w earlier st))"
    by (rule main_loop_append)
  also have "\<dots> = main_loop w later (snd (process_item w u (snd (main_loop w earlier st))))"
    using process_item_returns [of w u "snd (main_loop w earlier st)"]
    by (cases "process_item w u (snd (main_loop w earlier st))") simp
  finally have a: "main_loop w (earlier @ u # later) st =
     main_loop w later (snd (process_item w u (snd (main_loop w earlier st))))" .
  have c: "calls (py_print (ScrapingCategory u) (snd (main_loop w earlier st))) =
           calls (snd (main_loop w earlier st))"
    by (simp add: py_print_def emit_def)
  show ?thesis
    using a runner_waits [of "py_print (ScrapingCategory u) (snd (main_loop w earlier st))" w u]
      process_item_waits [of "snd (main_loop w earlier st)" w u]
    by (simp add: Let_def c)
qed

theorem backoff_restarts_per_item_witness:
  "waits (trace (snd (main_loop third_time_lucky [''Cell Phones''] start))) = [5, 10, 5] \<and>
   waits (new_events (snd (main_loop third_time_lucky [''Cell Phones''] start))
            (snd (process_item third_time_lucky ''Tablets''
                    (snd (main_loop third_time_lucky [''Cell Phones''] start))))) = [5, 10, 5]"
proof -
  have s: "calls (snd (main_loop third_time_lucky [''Cell Phones''] start)) = 3"
    by (simp add: run_defs third_time_lucky_def)
  have l: "leading_errors third_time_lucky ''Tablets'' 3 3 =
             [Exception ''timeout'', Exception ''timeout'']"
    by (simp add: leading_errors_3 third_time_lucky_def)
  have f: "\<not> fails_terminally third_time_lucky ''Tablets''
             (snd (main_loop third_time_lucky [''Cell Phones''] start))"
    unfolding fails_terminally_def exhausts_def item_persist_def s l
    by (simp add: third_time_lucky_def)
  have t: "waits (trace (snd (main_loop third_time_lucky [''Cell Phones''] start))) = [5, 10, 5]"
    by (simp add: run_defs third_time_lucky_def)
  show ?thesis
    using backoff_restarts_per_item [of third_time_lucky "[''Cell Phones'']" "''Tablets''"
        "[''Computers'']" start] f t
    by (simp add: Let_def s l del: main_loop.simps)
qed

end
